theory Spec2Isabelle
  imports Main "HOL-Library.AList"
begin

section \<open>Python values and exceptions\<close>

text \<open>
  The program is dynamically typed: a field constructor may be handed any object and
  tests \<open>isinstance(value, str)\<close>. The values that matter here are strings and
  a few kinds of non-strings. A Python \<open>str\<close> is a sequence of code points; the
  model takes the code points below 256, one \<^typ>\<open>char\<close> each, so that
  \<^const>\<open>length\<close> is Python's \<open>len\<close>.
\<close>

datatype pyval = PStr string | PInt int | PBool bool | PNone

text \<open>The exceptions the program and the library calls it makes can raise.\<close>

datatype error = ValueError | OverflowError | KeyError | IndexError

section \<open>The library type \<open>datetime.date\<close>\<close>

text \<open>
  The program computes with \<open>datetime.date\<close>: \<open>weekday()\<close>, \<open>date + timedelta\<close>,
  \<open>replace(year=...)\<close>, comparison, \<open>strptime\<close> and \<open>strftime\<close>. The model follows
  the reference implementation of the standard library (\<open>Lib/datetime.py\<close>), with
  Python's unbounded integers as \<^typ>\<open>int\<close>; \<open>//\<close> and \<open>%\<close> with a positive
  divisor are \<open>div\<close> and \<open>mod\<close>.
\<close>

definition MINYEAR :: int where
  "MINYEAR = 1"

definition MAXYEAR :: int where
  "MAXYEAR = 9999"

definition MAXORDINAL :: int where
  "MAXORDINAL = 3652059"

definition DAYS_IN_MONTH :: "int list" where
  "DAYS_IN_MONTH = [-1, 31, 28, 31, 30, 31, 30, 31, 31, 30, 31, 30, 31]"

definition DAYS_BEFORE_MONTH :: "int list" where
  "DAYS_BEFORE_MONTH = [-1, 0, 31, 59, 90, 120, 151, 181, 212, 243, 273, 304, 334]"

definition is_leap :: "int \<Rightarrow> bool" where
  "is_leap year \<longleftrightarrow> year mod 4 = 0 \<and> (year mod 100 \<noteq> 0 \<or> year mod 400 = 0)"

definition days_before_year :: "int \<Rightarrow> int" where
  "days_before_year year = (let y = year - 1 in y * 365 + y div 4 - y div 100 + y div 400)"

text \<open>
  The two table lookups are made with a month in \<open>1..12\<close> only (the library asserts
  it): every date is built by \<open>check_date_fields\<close> or by \<open>ord2ymd\<close> below.
\<close>

definition days_in_month :: "int \<Rightarrow> int \<Rightarrow> int" where
  "days_in_month year month =
     (if month = 2 \<and> is_leap year then 29 else DAYS_IN_MONTH ! nat month)"

definition days_before_month :: "int \<Rightarrow> int \<Rightarrow> int" where
  "days_before_month year month =
     DAYS_BEFORE_MONTH ! nat month + (if month > 2 \<and> is_leap year then 1 else 0)"

definition ymd2ord :: "int \<Rightarrow> int \<Rightarrow> int \<Rightarrow> int" where
  "ymd2ord year month dd = days_before_year year + days_before_month year month + dd"

definition DI400Y :: int where
  "DI400Y = days_before_year 401"

definition DI100Y :: int where
  "DI100Y = days_before_year 101"

definition DI4Y :: int where
  "DI4Y = days_before_year 5"

text \<open>\<open>_ord2ymd\<close>; the shift \<open>(n + 50) >> 5\<close> is the division by 32.\<close>

definition ord2ymd :: "int \<Rightarrow> int \<times> int \<times> int" where
  "ord2ymd n0 =
     (let n = n0 - 1;
          n400 = n div DI400Y; n = n mod DI400Y;
          year = n400 * 400 + 1;
          n100 = n div DI100Y; n = n mod DI100Y;
          n4 = n div DI4Y; n = n mod DI4Y;
          n1 = n div 365; n = n mod 365;
          year = year + (n100 * 100 + n4 * 4 + n1)
      in if n1 = 4 \<or> n100 = 4 then (year - 1, 12, 31)
         else
           let leapyear = (n1 = 3 \<and> (n4 \<noteq> 24 \<or> n100 = 3));
               month = (n + 50) div 32;
               preceding = DAYS_BEFORE_MONTH ! nat month
                             + (if month > 2 \<and> leapyear then 1 else 0)
           in if preceding > n
              then let month = month - 1;
                       preceding = preceding
                         - (DAYS_IN_MONTH ! nat month + (if month = 2 \<and> leapyear then 1 else 0))
                   in (year, month, n - preceding + 1)
              else (year, month, n - preceding + 1))"

record date =
  year :: int
  month :: int
  day :: int

text \<open>
  A \<open>date\<close> object only exists with fields that passed \<open>_check_date_fields\<close>;
  \<open>valid_date\<close> is that class invariant.
\<close>

definition valid_date :: "date \<Rightarrow> bool" where
  "valid_date d \<longleftrightarrow>
     MINYEAR \<le> year d \<and> year d \<le> MAXYEAR \<and> 1 \<le> month d \<and> month d \<le> 12 \<and>
     1 \<le> day d \<and> day d \<le> days_in_month (year d) (month d)"

text \<open>The constructor \<open>date(year, month, day)\<close>.\<close>

definition new_date :: "int \<Rightarrow> int \<Rightarrow> int \<Rightarrow> error + date" where
  "new_date y m d =
     (if \<not> (MINYEAR \<le> y \<and> y \<le> MAXYEAR) then Inl ValueError
      else if \<not> (1 \<le> m \<and> m \<le> 12) then Inl ValueError
      else if \<not> (1 \<le> d \<and> d \<le> days_in_month y m) then Inl ValueError
      else Inr \<lparr>year = y, month = m, day = d\<rparr>)"

definition toordinal :: "date \<Rightarrow> int" where
  "toordinal d = ymd2ord (year d) (month d) (day d)"

definition fromordinal :: "int \<Rightarrow> error + date" where
  "fromordinal n = (case ord2ymd n of (y, m, d) \<Rightarrow> new_date y m d)"

definition weekday :: "date \<Rightarrow> int" where
  "weekday d = (toordinal d + 6) mod 7"

text \<open>
  \<open>timedelta(days=k)\<close> raises OverflowError beyond 999999999 days;
  \<open>date + timedelta\<close> raises OverflowError when the sum leaves \<open>date.min..date.max\<close>.
\<close>

definition timedelta :: "int \<Rightarrow> error + int" where
  "timedelta days = (if abs days > 999999999 then Inl OverflowError else Inr days)"

definition date_add :: "date \<Rightarrow> int \<Rightarrow> error + date" where
  "date_add d days =
     (let ordv = toordinal d + days
      in if 0 < ordv \<and> ordv \<le> MAXORDINAL then fromordinal ordv else Inl OverflowError)"

text \<open>\<open>a < b\<close> on dates compares \<open>(year, month, day)\<close> lexicographically.\<close>

definition date_less :: "date \<Rightarrow> date \<Rightarrow> bool" where
  "date_less a b \<longleftrightarrow>
     year a < year b \<or> (year a = year b \<and> (month a < month b \<or>
       (month a = month b \<and> day a < day b)))"

definition replace_year :: "date \<Rightarrow> int \<Rightarrow> error + date" where
  "replace_year d y = new_date y (month d) (day d)"

section \<open>Weekday shifting\<close>

text \<open>
  \<^verbatim>\<open>
  def find_next_weekday(current_date, target_weekday):
      days_ahead = target_weekday - current_date.weekday()
      if days_ahead < 0:
          days_ahead += 7
      return current_date + timedelta(days=days_ahead)
  \<close>
\<close>

definition find_next_weekday :: "date \<Rightarrow> int \<Rightarrow> error + date" where
  "find_next_weekday current_date target_weekday =
     (let days_ahead = target_weekday - weekday current_date;
          days_ahead = (if days_ahead < 0 then days_ahead + 7 else days_ahead)
      in case timedelta days_ahead of
           Inl e \<Rightarrow> Inl e
         | Inr k \<Rightarrow> date_add current_date k)"

text \<open>
  \<^verbatim>\<open>
  def adjust_birthday(birthday):
      if birthday.weekday() == 5:
          return find_next_weekday(birthday, 1)
      elif birthday.weekday() == 6:
          return find_next_weekday(birthday, 2)
      else:
          return birthday
  \<close>
\<close>

definition adjust_birthday :: "date \<Rightarrow> error + date" where
  "adjust_birthday birthday =
     (if weekday birthday = 5 then find_next_weekday birthday 1
      else if weekday birthday = 6 then find_next_weekday birthday 2
      else Inr birthday)"

section \<open>Text form of a date: \<open>strptime\<close> and \<open>strftime\<close> with \<open>"%d.%m.%Y"\<close>\<close>

text \<open>
  \<open>datetime.strptime(s, "%d.%m.%Y")\<close> matches \<open>s\<close> against the regular expression
  \<^verbatim>\<open>(?P<d>3[0-1]|[1-2]\d|0[1-9]|[1-9]| [1-9])\.(?P<m>1[0-2]|0[1-9]|[1-9])\.(?P<Y>\d\d\d\d)\<close>
  from the start of the string, raises ValueError when there is no match or when
  characters remain after the match, converts the three groups with \<open>int\<close> and builds
  the date, which raises ValueError for a day or year out of range.
  Each \<open>match_\<close> function lists the ways its group can match a prefix, in the order
  of the alternatives, each with the rest of the string; the first way that lets the whole
  expression match is the one the matcher reports.
\<close>

definition is_decimal :: "char \<Rightarrow> bool" where
  "is_decimal c \<longleftrightarrow> c \<in> set ''0123456789''"

definition is_nonzero_decimal :: "char \<Rightarrow> bool" where
  "is_nonzero_decimal c \<longleftrightarrow> c \<in> set ''123456789''"

definition digit_val :: "char \<Rightarrow> int" where
  "digit_val c = int (of_char c) - 48"

text \<open>\<open>int(s)\<close> on a matched group: surrounding blanks are skipped.\<close>

definition str_to_int :: "string \<Rightarrow> int" where
  "str_to_int s =
     foldl (\<lambda>acc c. 10 * acc + digit_val c) 0 (dropWhile (\<lambda>c. c = CHR '' '') s)"

definition match_d :: "string \<Rightarrow> (string \<times> string) list" where
  "match_d s =
     (case s of
        c1 # c2 # r \<Rightarrow>
          (if c1 = CHR ''3'' \<and> (c2 = CHR ''0'' \<or> c2 = CHR ''1'') then [([c1, c2], r)] else [])
          @ (if (c1 = CHR ''1'' \<or> c1 = CHR ''2'') \<and> is_decimal c2 then [([c1, c2], r)] else [])
          @ (if c1 = CHR ''0'' \<and> is_nonzero_decimal c2 then [([c1, c2], r)] else [])
      | _ \<Rightarrow> [])
     @ (case s of c1 # r \<Rightarrow> (if is_nonzero_decimal c1 then [([c1], r)] else []) | [] \<Rightarrow> [])
     @ (case s of
          c1 # c2 # r \<Rightarrow>
            (if c1 = CHR '' '' \<and> is_nonzero_decimal c2 then [([c1, c2], r)] else [])
        | _ \<Rightarrow> [])"

definition match_m :: "string \<Rightarrow> (string \<times> string) list" where
  "match_m s =
     (case s of
        c1 # c2 # r \<Rightarrow>
          (if c1 = CHR ''1'' \<and> (c2 = CHR ''0'' \<or> c2 = CHR ''1'' \<or> c2 = CHR ''2'')
           then [([c1, c2], r)] else [])
          @ (if c1 = CHR ''0'' \<and> is_nonzero_decimal c2 then [([c1, c2], r)] else [])
      | _ \<Rightarrow> [])
     @ (case s of c1 # r \<Rightarrow> (if is_nonzero_decimal c1 then [([c1], r)] else []) | [] \<Rightarrow> [])"

definition match_Y :: "string \<Rightarrow> (string \<times> string) list" where
  "match_Y s =
     (case s of
        c1 # c2 # c3 # c4 # r \<Rightarrow>
          (if is_decimal c1 \<and> is_decimal c2 \<and> is_decimal c3 \<and> is_decimal c4
           then [([c1, c2, c3, c4], r)] else [])
      | _ \<Rightarrow> [])"

definition match_dot :: "string \<Rightarrow> string list" where
  "match_dot s = (case s of c # r \<Rightarrow> (if c = CHR ''.'' then [r] else []) | [] \<Rightarrow> [])"

text \<open>All matches of the whole expression, in the matcher's order: groups and the rest.\<close>

definition match_dmy :: "string \<Rightarrow> ((string \<times> string \<times> string) \<times> string) list" where
  "match_dmy s =
     concat (map (\<lambda>(d, r1).
       concat (map (\<lambda>r2.
         concat (map (\<lambda>(m, r3).
           concat (map (\<lambda>r4.
             map (\<lambda>(y, r5). ((d, m, y), r5)) (match_Y r4))
           (match_dot r3)))
         (match_m r2)))
       (match_dot r1)))
     (match_d s))"

definition strptime_dmy :: "string \<Rightarrow> error + date" where
  "strptime_dmy s =
     (case match_dmy s of
        [] \<Rightarrow> Inl ValueError
      | ((d, m, y), rest) # _ \<Rightarrow>
          if rest \<noteq> [] then Inl ValueError
          else new_date (str_to_int y) (str_to_int m) (str_to_int d))"

text \<open>
  \<open>d.strftime("%d.%m.%Y")\<close>: day and month with two digits, the year with four (the
  form the library documents for \<open>%Y\<close>; for a year below 1000 some C libraries print
  fewer digits, and no statement below is about such a year).
\<close>

definition digit_char :: "int \<Rightarrow> char" where
  "digit_char k = ''0123456789'' ! nat k"

definition pad2 :: "int \<Rightarrow> string" where
  "pad2 n = [digit_char (n div 10 mod 10), digit_char (n mod 10)]"

definition pad4 :: "int \<Rightarrow> string" where
  "pad4 n = [digit_char (n div 1000 mod 10), digit_char (n div 100 mod 10),
             digit_char (n div 10 mod 10), digit_char (n mod 10)]"

definition strftime_dmy :: "date \<Rightarrow> string" where
  "strftime_dmy d = pad2 (day d) @ ''.'' @ pad2 (month d) @ ''.'' @ pad4 (year d)"

section \<open>Fields\<close>

text \<open>
  \<open>Field.__init__\<close> stores the value and calls \<open>validate\<close>; a field constructor is
  modelled as the function from the value to the stored value or the exception.
  \<^verbatim>\<open>
  class Name(Field):
      def validate(self):
          if not isinstance(self.value, str):
              raise ValueError("Name must be a string")
  \<close>
\<close>

definition Name :: "pyval \<Rightarrow> error + string" where
  "Name v = (case v of PStr s \<Rightarrow> Inr s | _ \<Rightarrow> Inl ValueError)"

text \<open>
  \<open>str.isdigit()\<close> is true when the string is not empty and every character has the
  Unicode property \<open>Numeric_Type=Digit\<close> or \<open>Decimal\<close>; below code point 256 these are
  the ten ASCII digits and the superscripts two, three and one (U+00B2, U+00B3, U+00B9).
\<close>

definition isdigit_char :: "char \<Rightarrow> bool" where
  "isdigit_char c \<longleftrightarrow> c \<in> set ''0123456789'' \<or> c \<in> {CHR 0xB2, CHR 0xB3, CHR 0xB9}"

definition isdigit :: "string \<Rightarrow> bool" where
  "isdigit s \<longleftrightarrow> s \<noteq> [] \<and> list_all isdigit_char s"

text \<open>
  \<^verbatim>\<open>
  class Phone(Field):
      def validate(self):
          if not isinstance(self.value, str):
              raise ValueError("Phone number must be a string")
          if not self.value.isdigit():
              raise ValueError("Phone number must contain only digits")
          if len(self.value) != 10:
              raise ValueError("Phone number must be 10 digits long")
  \<close>
\<close>

definition Phone :: "pyval \<Rightarrow> error + string" where
  "Phone v =
     (case v of
        PStr s \<Rightarrow>
          if \<not> isdigit s then Inl ValueError
          else if length s \<noteq> 10 then Inl ValueError
          else Inr s
      | _ \<Rightarrow> Inl ValueError)"

text \<open>
  \<^verbatim>\<open>
  class Birthday(Field):
      def validate(self):
          try:
              datetime.strptime(self.value, "%d.%m.%Y")
          except ValueError:
              raise ValueError("Invalid date format. Please use DD.MM.YYYY")
  \<close>
  The program only builds a \<open>Birthday\<close> from the string \<open>strftime\<close> returned.
\<close>

definition Birthday :: "string \<Rightarrow> error + string" where
  "Birthday s = (case strptime_dmy s of Inl e \<Rightarrow> Inl ValueError | Inr d \<Rightarrow> Inr s)"

section \<open>Contact records\<close>

text \<open>
  A \<open>Record\<close> holds the validated name, the list of validated phones and the optional
  birthday, each by the value of its field. The methods mutate the record; the model
  returns the record after the call together with the exception raised, if any, since a
  method may raise after it has already changed the record.
\<close>

record Record =
  name :: string
  phones :: "string list"
  birthday :: "string option"

definition Record_init :: "pyval \<Rightarrow> error + Record" where
  "Record_init v =
     (case Name v of
        Inl e \<Rightarrow> Inl e
      | Inr n \<Rightarrow> Inr \<lparr>name = n, phones = [], birthday = None\<rparr>)"

definition add_phone :: "Record \<Rightarrow> pyval \<Rightarrow> error option \<times> Record" where
  "add_phone r phone =
     (case Phone phone of
        Inl e \<Rightarrow> (Some e, r)
      | Inr phone_obj \<Rightarrow> (None, r\<lparr>phones := phones r @ [phone_obj]\<rparr>))"

text \<open>\<open>self.phones = [p for p in self.phones if str(p) != phone]\<close>\<close>

definition remove_phone :: "Record \<Rightarrow> pyval \<Rightarrow> Record" where
  "remove_phone r phone = r\<lparr>phones := filter (\<lambda>p. PStr p \<noteq> phone) (phones r)\<rparr>"

text \<open>
  \<^verbatim>\<open>
  def change_phone(self, old_phone, new_phone):
      self.remove_phone(old_phone)
      self.add_phone(new_phone)
  \<close>
\<close>

definition change_phone :: "Record \<Rightarrow> pyval \<Rightarrow> pyval \<Rightarrow> error option \<times> Record" where
  "change_phone r old_phone new_phone = add_phone (remove_phone r old_phone) new_phone"

text \<open>
  \<^verbatim>\<open>
  def add_birthday(self, birthday):
      birthday_date = datetime.strptime(birthday, "%d.%m.%Y").date()
      adjusted_birthday = adjust_birthday(birthday_date)
      self.birthday = Birthday(adjusted_birthday.strftime("%d.%m.%Y"))
  \<close>
\<close>

definition add_birthday :: "Record \<Rightarrow> string \<Rightarrow> error option \<times> Record" where
  "add_birthday r s =
     (case strptime_dmy s of
        Inl e \<Rightarrow> (Some e, r)
      | Inr birthday_date \<Rightarrow>
          (case adjust_birthday birthday_date of
             Inl e \<Rightarrow> (Some e, r)
           | Inr adjusted_birthday \<Rightarrow>
               (case Birthday (strftime_dmy adjusted_birthday) of
                  Inl e \<Rightarrow> (Some e, r)
                | Inr b \<Rightarrow> (None, r\<lparr>birthday := Some b\<rparr>))))"

section \<open>The address book\<close>

text \<open>
  \<open>AddressBook\<close> is a \<open>UserDict\<close> from the name to the record. A Python dictionary
  iterates in insertion order and keeps the place of a key that is assigned again: an
  association list with \<^const>\<open>AList.update\<close>.
\<close>

type_synonym AddressBook = "(string \<times> Record) list"

definition add_record :: "AddressBook \<Rightarrow> Record \<Rightarrow> AddressBook" where
  "add_record book r = AList.update (name r) r book"

definition find :: "AddressBook \<Rightarrow> string \<Rightarrow> Record option" where
  "find book nm = map_of book nm"

text \<open>
  \<^verbatim>\<open>
  def get_upcoming_birthdays(self):
      upcoming_birthdays = []
      today = date.today()
      for record in self.data.values():
          if record.birthday:
              birthday_date = datetime.strptime(record.birthday.value, "%d.%m.%Y").date()
              birthday_date = birthday_date.replace(year=today.year)
              if birthday_date < today:
                  birthday_date = birthday_date.replace(year=today.year + 1)
              upcoming_birthdays.append({"name": record.name.value, "birthday": birthday_date})
      return upcoming_birthdays
  \<close>
  \<open>date.today()\<close> is an input of the model. The loop is \<open>upcoming_loop\<close>, with the
  list built so far; an entry is the pair of the name and the date.
\<close>

fun upcoming_loop :: "date \<Rightarrow> Record list \<Rightarrow> (string \<times> date) list \<Rightarrow> error + (string \<times> date) list" where
  "upcoming_loop today [] upcoming_birthdays = Inr upcoming_birthdays"
| "upcoming_loop today (r # rs) upcoming_birthdays =
     (case birthday r of
        None \<Rightarrow> upcoming_loop today rs upcoming_birthdays
      | Some b \<Rightarrow>
          (case strptime_dmy b of
             Inl e \<Rightarrow> Inl e
           | Inr birthday_date \<Rightarrow>
               (case replace_year birthday_date (year today) of
                  Inl e \<Rightarrow> Inl e
                | Inr birthday_date \<Rightarrow>
                    if date_less birthday_date today
                    then (case replace_year birthday_date (year today + 1) of
                            Inl e \<Rightarrow> Inl e
                          | Inr birthday_date \<Rightarrow>
                              upcoming_loop today rs
                                (upcoming_birthdays @ [(name r, birthday_date)]))
                    else upcoming_loop today rs
                           (upcoming_birthdays @ [(name r, birthday_date)]))))"

definition get_upcoming_birthdays :: "date \<Rightarrow> AddressBook \<Rightarrow> error + (string \<times> date) list" where
  "get_upcoming_birthdays today book = upcoming_loop today (map snd book) []"

section \<open>The \<open>birthdays\<close> command\<close>

text \<open>
  The state a command handler works on: the address book and the lines printed so far.
\<close>

record state =
  book :: AddressBook
  printed :: "string list"

text \<open>
  \<open>input_error\<close> turns ValueError, KeyError and IndexError into the returned message;
  any other exception propagates. A handler returns a string or \<open>None\<close>.
\<close>

definition input_error :: "error + string option \<Rightarrow> error + string option" where
  "input_error res =
     (case res of
        Inl ValueError \<Rightarrow> Inr (Some ''Invalid input. Please check your input format and try again.'')
      | Inl KeyError \<Rightarrow> Inr (Some ''Invalid input. The specified key does not exist.'')
      | Inl IndexError \<Rightarrow> Inr (Some ''Invalid input. Please provide all necessary arguments.'')
      | Inl e \<Rightarrow> Inl e
      | Inr v \<Rightarrow> Inr v)"

text \<open>
  \<^verbatim>\<open>
  @input_error
  def birthdays(args, book):
      upcoming_birthdays = book.get_upcoming_birthdays()
      if upcoming_birthdays:
          print("Upcoming birthdays within the next week:")
          for user in upcoming_birthdays:
              birthday = user['birthday']
              if birthday.weekday() >= 5:
                  birthday = find_next_weekday(birthday, 0)
              print(f"{user['name']}: {birthday.strftime('%d.%m.%Y')}")
      else:
          print("No upcoming birthdays within the next week.")
  \<close>
\<close>

fun print_loop :: "(string \<times> date) list \<Rightarrow> state \<Rightarrow> error option \<times> state" where
  "print_loop [] st = (None, st)"
| "print_loop ((nm, b) # users) st =
     (if weekday b \<ge> 5
      then (case find_next_weekday b 0 of
              Inl e \<Rightarrow> (Some e, st)
            | Inr b' \<Rightarrow>
                print_loop users (st\<lparr>printed := printed st @ [nm @ '': '' @ strftime_dmy b']\<rparr>))
      else print_loop users (st\<lparr>printed := printed st @ [nm @ '': '' @ strftime_dmy b]\<rparr>))"

definition birthdays_body :: "date \<Rightarrow> state \<Rightarrow> (error + string option) \<times> state" where
  "birthdays_body today st =
     (case get_upcoming_birthdays today (book st) of
        Inl e \<Rightarrow> (Inl e, st)
      | Inr upcoming_birthdays \<Rightarrow>
          if upcoming_birthdays \<noteq> []
          then (case print_loop upcoming_birthdays
                       (st\<lparr>printed := printed st @ [''Upcoming birthdays within the next week:'']\<rparr>) of
                  (Some e, st') \<Rightarrow> (Inl e, st')
                | (None, st') \<Rightarrow> (Inr None, st'))
          else (Inr None,
                st\<lparr>printed := printed st @ [''No upcoming birthdays within the next week.'']\<rparr>))"

definition birthdays :: "date \<Rightarrow> state \<Rightarrow> (error + string option) \<times> state" where
  "birthdays today st = (case birthdays_body today st of (res, st') \<Rightarrow> (input_error res, st'))"

section \<open>Auxiliary notions for the proofs\<close>

text \<open>
  What \<open>_ord2ymd\<close> has to find for the day number \<open>n\<close> (counted from 0) within a
  year that is a leap year or not (\<open>L\<close>): a month and a day of that month that lie
  \<open>n\<close> days after January 1st.
\<close>

definition good_month_day :: "bool \<Rightarrow> int \<Rightarrow> int \<Rightarrow> int \<Rightarrow> bool" where
  "good_month_day L n m d \<longleftrightarrow>
     1 \<le> m \<and> m \<le> 12 \<and> 1 \<le> d
     \<and> d \<le> (if m = 2 \<and> L then 29 else DAYS_IN_MONTH ! nat m)
     \<and> DAYS_BEFORE_MONTH ! nat m + (if m > 2 \<and> L then 1 else 0) + d = n + 1"

text \<open>The ten ASCII digits, and \<open>isinstance(v, str)\<close>, as the claims about fields speak of them.\<close>

definition is_ascii_digit :: "char \<Rightarrow> bool" where
  "is_ascii_digit c \<longleftrightarrow> c \<in> set ''0123456789''"

definition is_str :: "pyval \<Rightarrow> bool" where
  "is_str v = (case v of PStr s \<Rightarrow> True | _ \<Rightarrow> False)"

text \<open>
  The re-anchoring of a stored birthday \<open>B\<close> in the words of the specification: the
  candidate is \<open>B\<close> with the year of today, and when the candidate is earlier than
  today, \<open>B\<close> with the year after. \<open>reanchorable\<close> says that the dates this passes
  through exist in the calendar. \<open>entries_spec\<close> lists, in the order of the book, the name
  and the re-anchored birthday of each contact that has a birthday.
\<close>

definition reanchor_spec :: "date \<Rightarrow> date \<Rightarrow> date" where
  "reanchor_spec today B =
     (let candidate = B\<lparr>year := year today\<rparr>
      in if date_less candidate today then B\<lparr>year := year today + 1\<rparr> else candidate)"

definition reanchorable :: "date \<Rightarrow> date \<Rightarrow> bool" where
  "reanchorable today B \<longleftrightarrow>
     valid_date (B\<lparr>year := year today\<rparr>) \<and> valid_date (reanchor_spec today B)"

definition entries_spec :: "date \<Rightarrow> AddressBook \<Rightarrow> (string \<times> date) list" where
  "entries_spec today bk =
     concat (map (\<lambda>r. case birthday r of
                          None \<Rightarrow> []
                        | Some b \<Rightarrow> (case strptime_dmy b of
                                       Inl e \<Rightarrow> []
                                     | Inr B \<Rightarrow> [(name r, reanchor_spec today B)]))
                 (map snd bk))"

definition all_reanchorable :: "date \<Rightarrow> AddressBook \<Rightarrow> bool" where
  "all_reanchorable today bk =
     list_all (\<lambda>r. case birthday r of
                      None \<Rightarrow> True
                    | Some b \<Rightarrow> (case strptime_dmy b of
                                   Inl e \<Rightarrow> False
                                 | Inr B \<Rightarrow> reanchorable today B))
              (map snd bk)"

text \<open>
  What the \<open>birthdays\<close> command prints for an entry: the date itself on Monday to Friday,
  and for a Saturday or Sunday a Monday that \<open>find_next_weekday\<close> returned for target 0.
\<close>

definition shown_line :: "string \<times> date \<Rightarrow> string \<Rightarrow> bool" where
  "shown_line entry line =
     (case entry of (nm, c) \<Rightarrow>
        if weekday c \<ge> 5
        then (case find_next_weekday c 0 of
                Inl e \<Rightarrow> False
              | Inr R \<Rightarrow> weekday R = 0 \<and> line = nm @ '': '' @ strftime_dmy R)
        else line = nm @ '': '' @ strftime_dmy c)"

section \<open>Calendar facts\<close>

lemma DI_values: "DI400Y = 146097" "DI100Y = 36524" "DI4Y = 1461"
  by (simp_all add: DI400Y_def DI100Y_def DI4Y_def days_before_year_def)

lemma div_decomp:
  fixes a r k :: int
  assumes "0 \<le> r" "r < k"
  shows "(k * a + r) div k = a" "(k * a + r) mod k = r"
  using assms by simp_all

lemma days_before_year_decomp:
  fixes a b c d :: int
  assumes "0 \<le> b" "b \<le> 3" "0 \<le> c" "c \<le> 24" "0 \<le> d" "d \<le> 3"
  shows "days_before_year (400 * a + 100 * b + 4 * c + d + 1)
           = 146097 * a + 36524 * b + 1461 * c + 365 * d"
proof -
  let ?y = "400 * a + 100 * b + 4 * c + d"
  have "?y = 4 * (100 * a + 25 * b + c) + d" by simp
  then have q4: "?y div 4 = 100 * a + 25 * b + c"
    using div_decomp(1)[of d 4 "100 * a + 25 * b + c"] assms by simp
  have "?y = 100 * (4 * a + b) + (4 * c + d)" by simp
  then have q100: "?y div 100 = 4 * a + b"
    using div_decomp(1)[of "4 * c + d" 100 "4 * a + b"] assms by simp
  have q400: "?y div 400 = a"
    using div_decomp(1)[of "100 * b + 4 * c + d" 400 a] assms by (simp add: add.assoc)
  show ?thesis
    unfolding days_before_year_def Let_def using q4 q100 q400 by simp
qed

lemma is_leap_decomp:
  fixes a b c d :: int
  assumes "0 \<le> b" "b \<le> 3" "0 \<le> c" "c \<le> 24" "0 \<le> d" "d \<le> 3"
  shows "is_leap (400 * a + 100 * b + 4 * c + d + 1) \<longleftrightarrow> (d = 3 \<and> (c \<noteq> 24 \<or> b = 3))"
proof -
  let ?y = "400 * a + 100 * b + 4 * c + d + 1"
  show ?thesis
  proof (cases "d = 3")
    case False
    have e: "?y = 4 * (100 * a + 25 * b + c) + (d + 1)" by simp
    have "?y mod 4 = d + 1"
      by (subst e, rule div_decomp(2)) (use assms False in simp_all)
    then show ?thesis using False assms by (simp add: is_leap_def)
  next
    case True
    have y4: "?y = 4 * (100 * a + 25 * b + c + 1)" using True by simp
    have m4: "?y mod 4 = 0" by (subst y4) simp
    show ?thesis
    proof (cases "c = 24")
      case c24: True
      have y100: "?y = 100 * (4 * a + b + 1)" using True c24 by simp
      have m100: "?y mod 100 = 0" by (subst y100) simp
      show ?thesis
      proof (cases "b = 3")
        case b3: True
        have y400: "?y = 400 * (a + 1)" using True c24 b3 by simp
        have "?y mod 400 = 0" by (subst y400) simp
        then show ?thesis using m4 True c24 b3 by (simp add: is_leap_def)
      next
        case b3: False
        have e: "?y = 400 * a + (100 * (b + 1))" using True c24 by simp
        have "?y mod 400 = 100 * (b + 1)"
          by (subst e, rule div_decomp(2)) (use assms b3 in simp_all)
        then show ?thesis using m4 m100 True c24 b3 assms by (simp add: is_leap_def)
      qed
    next
      case c24: False
      have e: "?y = 100 * (4 * a + b) + 4 * (c + 1)" using True by simp
      have "?y mod 100 = 4 * (c + 1)"
        by (subst e, rule div_decomp(2)) (use assms c24 in simp_all)
      then show ?thesis using m4 True c24 assms by (simp add: is_leap_def)
    qed
  qed
qed

lemma month_estimate_cases:
  fixes n :: int
  assumes "0 \<le> n" "n \<le> 364"
  obtains m where "(n + 50) div 32 = m" "32 * m \<le> n + 50" "n + 50 < 32 * m + 32"
    "m = 1 \<or> m = 2 \<or> m = 3 \<or> m = 4 \<or> m = 5 \<or> m = 6 \<or> m = 7 \<or> m = 8 \<or> m = 9 \<or> m = 10 \<or> m = 11 \<or> m = 12"
proof -
  define m where "m = (n + 50) div 32"
  have 1: "32 * m \<le> n + 50" "n + 50 < 32 * m + 32"
    unfolding m_def by simp_all
  with assms have "1 \<le> m" "m \<le> 12" by simp_all
  then have "m = 1 \<or> m = 2 \<or> m = 3 \<or> m = 4 \<or> m = 5 \<or> m = 6 \<or> m = 7 \<or> m = 8 \<or> m = 9 \<or> m = 10 \<or> m = 11 \<or> m = 12"
    by arith
  with 1 m_def that show thesis by blast
qed

lemma month_part:
  fixes n :: int
  assumes "0 \<le> n" "n \<le> 364"
  shows "if DAYS_BEFORE_MONTH ! nat ((n + 50) div 32)
             + (if (n + 50) div 32 > 2 \<and> L then 1 else 0) > n
         then good_month_day L n ((n + 50) div 32 - 1)
                (n - (DAYS_BEFORE_MONTH ! nat ((n + 50) div 32)
                        + (if (n + 50) div 32 > 2 \<and> L then 1 else 0)
                      - (DAYS_IN_MONTH ! nat ((n + 50) div 32 - 1)
                          + (if (n + 50) div 32 - 1 = 2 \<and> L then 1 else 0))) + 1)
         else good_month_day L n ((n + 50) div 32)
                (n - (DAYS_BEFORE_MONTH ! nat ((n + 50) div 32)
                        + (if (n + 50) div 32 > 2 \<and> L then 1 else 0)) + 1)"
proof -
  obtain m where m: "(n + 50) div 32 = m" "32 * m \<le> n + 50" "n + 50 < 32 * m + 32"
    "m = 1 \<or> m = 2 \<or> m = 3 \<or> m = 4 \<or> m = 5 \<or> m = 6 \<or> m = 7 \<or> m = 8 \<or> m = 9 \<or> m = 10 \<or> m = 11 \<or> m = 12"
    using month_estimate_cases[OF assms] by blast
  from m(4) show ?thesis
  proof (elim disjE)
    assume "m = 1" with m assms show ?thesis
      by (simp add: good_month_day_def DAYS_BEFORE_MONTH_def DAYS_IN_MONTH_def)
  next
    assume "m = 2" with m assms show ?thesis
      by (simp add: good_month_day_def DAYS_BEFORE_MONTH_def DAYS_IN_MONTH_def)
  next
    assume "m = 3" with m assms show ?thesis
      by (simp add: good_month_day_def DAYS_BEFORE_MONTH_def DAYS_IN_MONTH_def)
  next
    assume "m = 4" with m assms show ?thesis
      by (simp add: good_month_day_def DAYS_BEFORE_MONTH_def DAYS_IN_MONTH_def)
  next
    assume "m = 5" with m assms show ?thesis
      by (simp add: good_month_day_def DAYS_BEFORE_MONTH_def DAYS_IN_MONTH_def)
  next
    assume "m = 6" with m assms show ?thesis
      by (simp add: good_month_day_def DAYS_BEFORE_MONTH_def DAYS_IN_MONTH_def)
  next
    assume "m = 7" with m assms show ?thesis
      by (simp add: good_month_day_def DAYS_BEFORE_MONTH_def DAYS_IN_MONTH_def)
  next
    assume "m = 8" with m assms show ?thesis
      by (simp add: good_month_day_def DAYS_BEFORE_MONTH_def DAYS_IN_MONTH_def)
  next
    assume "m = 9" with m assms show ?thesis
      by (simp add: good_month_day_def DAYS_BEFORE_MONTH_def DAYS_IN_MONTH_def)
  next
    assume "m = 10" with m assms show ?thesis
      by (simp add: good_month_day_def DAYS_BEFORE_MONTH_def DAYS_IN_MONTH_def)
  next
    assume "m = 11" with m assms show ?thesis
      by (simp add: good_month_day_def DAYS_BEFORE_MONTH_def DAYS_IN_MONTH_def)
  next
    assume "m = 12" with m assms show ?thesis
      by (simp add: good_month_day_def DAYS_BEFORE_MONTH_def DAYS_IN_MONTH_def)
  qed
qed

lemma ord2ymd_props:
  "case ord2ymd n0 of (y, m, d) \<Rightarrow>
     1 \<le> m \<and> m \<le> 12 \<and> 1 \<le> d \<and> d \<le> days_in_month y m \<and> ymd2ord y m d = n0"
proof -
  define a where "a = (n0 - 1) div 146097"
  define r1 where "r1 = (n0 - 1) mod 146097"
  define b where "b = r1 div 36524"
  define r2 where "r2 = r1 mod 36524"
  define c where "c = r2 div 1461"
  define r3 where "r3 = r2 mod 1461"
  define d where "d = r3 div 365"
  define r4 where "r4 = r3 mod 365"
  have n0: "n0 - 1 = 146097 * a + r1" by (simp add: a_def r1_def)
  have r1: "0 \<le> r1" "r1 < 146097" "r1 = 36524 * b + r2" by (simp_all add: r1_def b_def r2_def)
  have r2: "0 \<le> r2" "r2 < 36524" "r2 = 1461 * c + r3" by (simp_all add: r2_def c_def r3_def)
  have r3: "0 \<le> r3" "r3 < 1461" "r3 = 365 * d + r4" by (simp_all add: r3_def d_def r4_def)
  have r4: "0 \<le> r4" "r4 < 365" by (simp_all add: r4_def)
  have b: "0 \<le> b" "b \<le> 4" using r1 r2 by linarith+
  have c: "0 \<le> c" "c \<le> 24" using r2 r3 by linarith+
  have d: "0 \<le> d" "d \<le> 4" using r3 r4 by linarith+
  show ?thesis
    unfolding ord2ymd_def Let_def DI_values
    unfolding a_def[symmetric] r1_def[symmetric]
    unfolding b_def[symmetric] r2_def[symmetric]
    unfolding c_def[symmetric] r3_def[symmetric]
    unfolding d_def[symmetric] r4_def[symmetric]
  proof (cases "b = 4")
    case True
    with r1 r2 have "r2 = 0" by simp
    with r2 r3 c have "c = 0" "r3 = 0" by simp_all
    with r3 r4 d have "d = 0" "r4 = 0" by simp_all
    have y: "a * 400 + 1 + (b * 100 + c * 4 + d) - 1 = 400 * a + 100 * 3 + 4 * 24 + 3 + 1"
      using True \<open>c = 0\<close> \<open>d = 0\<close> by simp
    have dby: "days_before_year (a * 400 + 1 + (b * 100 + c * 4 + d) - 1) = 146097 * a + 145731"
      unfolding y by (subst days_before_year_decomp) simp_all
    have leap: "is_leap (a * 400 + 1 + (b * 100 + c * 4 + d) - 1)"
      unfolding y by (subst is_leap_decomp) simp_all
    have n: "n0 = 146097 * a + 146097"
      using n0 r1 True \<open>r2 = 0\<close> by simp
    have "1 \<le> (31::int) \<and> 31 \<le> days_in_month (a * 400 + 1 + (b * 100 + c * 4 + d) - 1) 12
          \<and> ymd2ord (a * 400 + 1 + (b * 100 + c * 4 + d) - 1) 12 31 = n0"
      using dby leap n
      by (simp add: ymd2ord_def days_in_month_def days_before_month_def
          DAYS_IN_MONTH_def DAYS_BEFORE_MONTH_def)
    then show "case (if d = 4 \<or> b = 4 then (a * 400 + 1 + (b * 100 + c * 4 + d) - 1, 12, 31) else X) of (y, m, d) \<Rightarrow>
     1 \<le> m \<and> m \<le> 12 \<and> 1 \<le> d \<and> d \<le> days_in_month y m \<and> ymd2ord y m d = n0" for X
      using True by simp
  next
    case b4: False
    with b have b3: "b \<le> 3" by simp
    show "case (if d = 4 \<or> b = 4 then (a * 400 + 1 + (b * 100 + c * 4 + d) - 1, 12, 31)
       else if r4 < DAYS_BEFORE_MONTH ! nat ((r4 + 50) div 32) +
                 (if 2 < (r4 + 50) div 32 \<and> d = 3 \<and> (c \<noteq> 24 \<or> b = 3) then 1 else 0)
            then (a * 400 + 1 + (b * 100 + c * 4 + d), (r4 + 50) div 32 - 1,
                  r4 - (DAYS_BEFORE_MONTH ! nat ((r4 + 50) div 32) +
                        (if 2 < (r4 + 50) div 32 \<and> d = 3 \<and> (c \<noteq> 24 \<or> b = 3) then 1 else 0) -
                        (DAYS_IN_MONTH ! nat ((r4 + 50) div 32 - 1) +
                         (if (r4 + 50) div 32 - 1 = 2 \<and> d = 3 \<and> (c \<noteq> 24 \<or> b = 3) then 1 else 0))) + 1)
            else (a * 400 + 1 + (b * 100 + c * 4 + d), (r4 + 50) div 32,
                  r4 - (DAYS_BEFORE_MONTH ! nat ((r4 + 50) div 32) +
                        (if 2 < (r4 + 50) div 32 \<and> d = 3 \<and> (c \<noteq> 24 \<or> b = 3) then 1 else 0)) + 1)) of (y, m, d) \<Rightarrow>
     1 \<le> m \<and> m \<le> 12 \<and> 1 \<le> d \<and> d \<le> days_in_month y m \<and> ymd2ord y m d = n0"
    proof (cases "d = 4")
      case True
      with r3 r4 have "r4 = 0" "r3 = 1460" by simp_all
      with r2 have c23: "c \<le> 23" by simp
      have y: "a * 400 + 1 + (b * 100 + c * 4 + d) - 1 = 400 * a + 100 * b + 4 * c + 3 + 1"
        using True by simp
      have dby: "days_before_year (a * 400 + 1 + (b * 100 + c * 4 + d) - 1)
                   = 146097 * a + 36524 * b + 1461 * c + 1095"
        unfolding y using b b3 c by (subst days_before_year_decomp) simp_all
      have leap: "is_leap (a * 400 + 1 + (b * 100 + c * 4 + d) - 1)"
        unfolding y using b b3 c c23 by (subst is_leap_decomp) simp_all
      have n: "n0 = 146097 * a + 36524 * b + 1461 * c + 1461"
        using n0 r1 r2 \<open>r3 = 1460\<close> by simp
      have "1 \<le> (31::int) \<and> 31 \<le> days_in_month (a * 400 + 1 + (b * 100 + c * 4 + d) - 1) 12
          \<and> ymd2ord (a * 400 + 1 + (b * 100 + c * 4 + d) - 1) 12 31 = n0"
        using dby leap n
        by (simp add: ymd2ord_def days_in_month_def days_before_month_def
            DAYS_IN_MONTH_def DAYS_BEFORE_MONTH_def)
      then show ?thesis
        using True by simp
    next
      case False
      with d have d3: "d \<le> 3" by simp
      let ?y = "a * 400 + 1 + (b * 100 + c * 4 + d)"
      let ?L = "d = 3 \<and> (c \<noteq> 24 \<or> b = 3)"
      have y: "?y = 400 * a + 100 * b + 4 * c + d + 1" by simp
      have dby: "days_before_year ?y = 146097 * a + 36524 * b + 1461 * c + 365 * d"
        unfolding y using b(1) b3 c d(1) d3 by (rule days_before_year_decomp)
      have leap: "is_leap ?y \<longleftrightarrow> ?L"
        unfolding y using b(1) b3 c d(1) d3 by (rule is_leap_decomp)
      have n: "n0 = days_before_year ?y + r4 + 1"
        using n0 r1 r2 r3 dby by simp
      have r4': "r4 \<le> 364" using r4 by simp
      have good: "good_month_day ?L r4 m dd \<Longrightarrow>
          1 \<le> m \<and> m \<le> 12 \<and> 1 \<le> dd \<and> dd \<le> days_in_month ?y m \<and> ymd2ord ?y m dd = n0" for m dd
        unfolding good_month_day_def ymd2ord_def days_in_month_def days_before_month_def leap n
        by simp
      note mp = month_part[OF r4(1) r4', of ?L]
      show ?thesis
      proof (cases "r4 < DAYS_BEFORE_MONTH ! nat ((r4 + 50) div 32) +
                 (if 2 < (r4 + 50) div 32 \<and> ?L then 1 else 0)")
        case lt: True
        from mp lt have "good_month_day ?L r4 ((r4 + 50) div 32 - 1)
                (r4 - (DAYS_BEFORE_MONTH ! nat ((r4 + 50) div 32)
                        + (if (r4 + 50) div 32 > 2 \<and> ?L then 1 else 0)
                      - (DAYS_IN_MONTH ! nat ((r4 + 50) div 32 - 1)
                          + (if (r4 + 50) div 32 - 1 = 2 \<and> ?L then 1 else 0))) + 1)"
          by (simp only: if_True)
        from good[OF this] show ?thesis
          using False b4 lt by (simp only: if_True if_False simp_thms prod.case)
      next
        case ge: False
        from mp ge have "good_month_day ?L r4 ((r4 + 50) div 32)
                (r4 - (DAYS_BEFORE_MONTH ! nat ((r4 + 50) div 32)
                        + (if (r4 + 50) div 32 > 2 \<and> ?L then 1 else 0)) + 1)"
          by (simp only: if_False)
        from good[OF this] show ?thesis
          using False b4 ge by (simp only: if_True if_False simp_thms prod.case)
      qed
    qed
  qed
qed

lemma div_step:
  fixes y k :: int
  assumes "0 < k"
  shows "y div k = (y - 1) div k + (if y mod k = 0 then 1 else 0)"
proof (cases "y mod k = 0")
  case True
  have "y = k * (y div k) + y mod k" by simp
  with True have "y = k * (y div k)" by simp
  then have e: "y - 1 = k * (y div k - 1) + (k - 1)"
    by (simp add: algebra_simps)
  have "(y - 1) div k = y div k - 1"
    by (subst e, rule div_decomp(1)) (use assms in simp_all)
  with True show ?thesis by simp
next
  case False
  have "0 \<le> y mod k" "y mod k < k" using assms by simp_all
  with False have r: "0 \<le> y mod k - 1" "y mod k - 1 < k" by simp_all
  have e: "y - 1 = k * (y div k) + (y mod k - 1)" by simp
  have "(y - 1) div k = y div k"
    by (subst e, rule div_decomp(1)) (use r in simp_all)
  with False show ?thesis by simp
qed

lemma days_before_year_Suc:
  "days_before_year (y + 1) = days_before_year y + 365 + (if is_leap y then 1 else 0)"
proof -
  have "100 dvd y" if "400 dvd y" using dvd_trans[of 100 400 y] that by simp
  then have m1: "y mod 400 = 0 \<Longrightarrow> y mod 100 = 0" by (simp add: mod_eq_0_iff_dvd)
  have "4 dvd y" if "100 dvd y" using dvd_trans[of 4 100 y] that by simp
  then have m2: "y mod 100 = 0 \<Longrightarrow> y mod 4 = 0" by (simp add: mod_eq_0_iff_dvd)
  define q4 where "q4 = (y - 1) div 4"
  define q100 where "q100 = (y - 1) div 100"
  define q400 where "q400 = (y - 1) div 400"
  define p4 where "p4 = y div 4"
  define p100 where "p100 = y div 100"
  define p400 where "p400 = y div 400"
  have s4: "p4 = q4 + (if y mod 4 = 0 then 1 else 0)"
    unfolding p4_def q4_def by (rule div_step) simp
  have s100: "p100 = q100 + (if y mod 100 = 0 then 1 else 0)"
    unfolding p100_def q100_def by (rule div_step) simp
  have s400: "p400 = q400 + (if y mod 400 = 0 then 1 else 0)"
    unfolding p400_def q400_def by (rule div_step) simp
  have L: "(if is_leap y then 1 else 0) = (p4 - q4) - (p100 - q100) + (p400 - q400)"
  proof (cases "y mod 4 = 0")
    case False
    have n100: "y mod 100 \<noteq> 0"
    proof
      assume "y mod 100 = 0"
      then have "y mod 4 = 0" by (rule m2)
      with False show False by simp
    qed
    have n400: "y mod 400 \<noteq> 0"
    proof
      assume "y mod 400 = 0"
      then have "y mod 100 = 0" by (rule m1)
      with n100 show False by simp
    qed
    show ?thesis
      unfolding s4 s100 s400 is_leap_def using False n100 n400 by simp
  next
    case y4: True
    show ?thesis
    proof (cases "y mod 100 = 0")
      case False
      have n400: "y mod 400 \<noteq> 0"
      proof
        assume "y mod 400 = 0"
        then have "y mod 100 = 0" by (rule m1)
        with False show False by simp
      qed
      show ?thesis
        unfolding s4 s100 s400 is_leap_def using False y4 n400 by simp
    next
      case True
      show ?thesis
        unfolding s4 s100 s400 is_leap_def using True y4 by simp
    qed
  qed
  have "days_before_year (y + 1) = y * 365 + p4 - p100 + p400"
    by (simp add: days_before_year_def Let_def p4_def p100_def p400_def)
  moreover have "days_before_year y = (y - 1) * 365 + q4 - q100 + q400"
    by (simp add: days_before_year_def Let_def q4_def q100_def q400_def)
  ultimately show ?thesis
    unfolding L by (simp add: algebra_simps)
qed

lemma days_before_year_mono:
  assumes "y \<le> z"
  shows "days_before_year y \<le> days_before_year z"
  using assms
proof (induction z rule: int_ge_induct)
  case base
  show ?case by simp
next
  case (step i)
  have "days_before_year i \<le> days_before_year (i + 1)"
    unfolding days_before_year_Suc[of i] by simp
  with step.IH show ?case by simp
qed

lemma month_cases:
  fixes m :: int
  assumes "1 \<le> m" "m \<le> 12"
  shows "m = 1 \<or> m = 2 \<or> m = 3 \<or> m = 4 \<or> m = 5 \<or> m = 6 \<or> m = 7 \<or> m = 8 \<or> m = 9 \<or> m = 10 \<or> m = 11 \<or> m = 12"
  using assms by arith

lemma days_before_month_Suc:
  assumes "1 \<le> m" "m \<le> 11"
  shows "days_before_month y (m + 1) = days_before_month y m + days_in_month y m"
proof -
  from assms have "m = 1 \<or> m = 2 \<or> m = 3 \<or> m = 4 \<or> m = 5 \<or> m = 6 \<or> m = 7 \<or> m = 8 \<or> m = 9 \<or> m = 10 \<or> m = 11"
    by arith
  then show ?thesis
    by (elim disjE) (simp_all add: days_before_month_def days_in_month_def DAYS_BEFORE_MONTH_def
        DAYS_IN_MONTH_def)
qed

lemma days_in_month_pos:
  assumes "1 \<le> m" "m \<le> 12"
  shows "28 \<le> days_in_month y m" "days_in_month y m \<le> 31"
  using month_cases[OF assms]
  by (elim disjE; simp add: days_in_month_def DAYS_IN_MONTH_def)+

lemma days_before_month_mono:
  assumes "1 \<le> i" "i \<le> j" "j \<le> 12"
  shows "days_before_month y i \<le> days_before_month y j"
  using assms(2,1,3)
proof (induction j rule: int_ge_induct)
  case base
  show ?case by simp
next
  case (step k)
  then have k: "1 \<le> k" "k \<le> 11" by simp_all
  have "days_before_month y k \<le> days_before_month y (k + 1)"
    unfolding days_before_month_Suc[OF k] using days_in_month_pos(1)[of k y] k by simp
  with step show ?case by simp
qed

lemma day_of_year_bounds:
  assumes "1 \<le> m" "m \<le> 12" "1 \<le> d" "d \<le> days_in_month y m"
  shows "1 \<le> days_before_month y m + d"
    and "days_before_month y m + d \<le> 365 + (if is_leap y then 1 else 0)"
proof -
  have b1: "days_before_month y 1 = 0"
    by (simp add: days_before_month_def DAYS_BEFORE_MONTH_def)
  have b12: "days_before_month y 12 + days_in_month y 12 = 365 + (if is_leap y then 1 else 0)"
    by (simp add: days_before_month_def DAYS_BEFORE_MONTH_def days_in_month_def DAYS_IN_MONTH_def)
  have "days_before_month y 1 \<le> days_before_month y m"
    using assms(1,2) by (intro days_before_month_mono) simp_all
  with b1 assms(3) show "1 \<le> days_before_month y m + d" by simp
  show "days_before_month y m + d \<le> 365 + (if is_leap y then 1 else 0)"
  proof (cases "m = 12")
    case True
    with assms(4) b12 show ?thesis by simp
  next
    case False
    with assms have m: "1 \<le> m" "m \<le> 11" by simp_all
    have "days_before_month y m + d \<le> days_before_month y (m + 1)"
      unfolding days_before_month_Suc[OF m] using assms(4) by simp
    also have "\<dots> \<le> days_before_month y 12"
      using m by (intro days_before_month_mono) simp_all
    also have "\<dots> \<le> 365 + (if is_leap y then 1 else 0)"
      using b12 days_in_month_pos(1)[of 12 y] by simp
    finally show ?thesis .
  qed
qed

lemma ymd2ord_year_bounds:
  assumes "1 \<le> m" "m \<le> 12" "1 \<le> d" "d \<le> days_in_month y m"
  shows "days_before_year y < ymd2ord y m d" and "ymd2ord y m d \<le> days_before_year (y + 1)"
  using day_of_year_bounds[OF assms] days_before_year_Suc[of y]
  by (simp_all add: ymd2ord_def)

lemma ymd2ord_same_year_inj:
  assumes "1 \<le> m" "m \<le> 12" "1 \<le> d" "d \<le> days_in_month y m"
    and "1 \<le> m'" "m' \<le> 12" "1 \<le> d'" "d' \<le> days_in_month y m'"
    and "days_before_month y m + d = days_before_month y m' + d'"
  shows "m = m' \<and> d = d'"
proof -
  have less: "days_before_month y i + e < days_before_month y j + e'"
    if "1 \<le> i" "i < j" "j \<le> 12" "e \<le> days_in_month y i" "1 \<le> e'" for i j e e'
  proof -
    from that have i: "1 \<le> i" "i \<le> 11" by simp_all
    have "days_before_month y i + e \<le> days_before_month y (i + 1)"
      unfolding days_before_month_Suc[OF i] using that(4) by simp
    also have "\<dots> \<le> days_before_month y j"
      using that by (intro days_before_month_mono) simp_all
    finally show ?thesis using that(5) by simp
  qed
  have "m = m'"
  proof (rule ccontr)
    assume "m \<noteq> m'"
    then consider "m < m'" | "m' < m" by linarith
    then show False
    proof cases
      case 1
      from less[OF assms(1) 1 assms(6) assms(4) assms(7)] assms(9) show False by simp
    next
      case 2
      from less[OF assms(5) 2 assms(2) assms(8) assms(3)] assms(9) show False by simp
    qed
  qed
  with assms(9) show ?thesis by simp
qed

lemma ymd2ord_inj:
  assumes "1 \<le> m" "m \<le> 12" "1 \<le> d" "d \<le> days_in_month y m"
    and "1 \<le> m'" "m' \<le> 12" "1 \<le> d'" "d' \<le> days_in_month y' m'"
    and "ymd2ord y m d = ymd2ord y' m' d'"
  shows "y = y' \<and> m = m' \<and> d = d'"
proof -
  have "y = y'"
  proof (rule ccontr)
    assume "y \<noteq> y'"
    then consider "y < y'" | "y' < y" by linarith
    then show False
    proof cases
      case 1
      then have "days_before_year (y + 1) \<le> days_before_year y'"
        by (intro days_before_year_mono) simp
      with ymd2ord_year_bounds(2)[OF assms(1-4)] ymd2ord_year_bounds(1)[OF assms(5-8)] assms(9)
      show False by simp
    next
      case 2
      then have "days_before_year (y' + 1) \<le> days_before_year y"
        by (intro days_before_year_mono) simp
      with ymd2ord_year_bounds(2)[OF assms(5-8)] ymd2ord_year_bounds(1)[OF assms(1-4)] assms(9)
      show False by simp
    qed
  qed
  moreover from this assms have "m = m' \<and> d = d'"
    by (intro ymd2ord_same_year_inj[of m d y m' d']) (simp_all add: ymd2ord_def)
  ultimately show ?thesis by simp
qed

section \<open>Dates and day numbers\<close>

text \<open>
  \<open>toordinal\<close> and \<open>fromordinal\<close> are inverse to each other between the valid dates and
  the day numbers \<open>1..MAXORDINAL\<close>, so that adding days to a date adds them to its day
  number and moves the weekday along.
\<close>

lemma days_before_year_1: "days_before_year 1 = 0"
  by (simp add: days_before_year_def)

lemma days_before_year_10000: "days_before_year 10000 = 3652059"
  by (simp add: days_before_year_def)

lemma valid_date_ordinal:
  assumes "valid_date d"
  shows "1 \<le> toordinal d" and "toordinal d \<le> MAXORDINAL"
proof -
  from assms have md: "1 \<le> month d" "month d \<le> 12" "1 \<le> day d"
      "day d \<le> days_in_month (year d) (month d)"
    and y: "1 \<le> year d" "year d \<le> 9999"
    by (simp_all add: valid_date_def MINYEAR_def MAXYEAR_def)
  have "days_before_year 1 \<le> days_before_year (year d)"
    using y by (intro days_before_year_mono) simp
  with ymd2ord_year_bounds(1)[OF md] show "1 \<le> toordinal d"
    by (simp add: toordinal_def days_before_year_1)
  have "days_before_year (year d + 1) \<le> days_before_year 10000"
    using y by (intro days_before_year_mono) simp
  with ymd2ord_year_bounds(2)[OF md] show "toordinal d \<le> MAXORDINAL"
    by (simp add: toordinal_def days_before_year_10000 MAXORDINAL_def)
qed

lemma fromordinal_valid:
  assumes "0 < n" "n \<le> MAXORDINAL"
  obtains d where "fromordinal n = Inr d" "valid_date d" "toordinal d = n"
proof -
  obtain y m dd where o: "ord2ymd n = (y, m, dd)" by (cases "ord2ymd n") auto
  with ord2ymd_props[of n] have md: "1 \<le> m" "m \<le> 12" "1 \<le> dd" "dd \<le> days_in_month y m"
    and n: "ymd2ord y m dd = n" by simp_all
  have "1 \<le> y"
  proof (rule ccontr)
    assume "\<not> 1 \<le> y"
    then have "days_before_year (y + 1) \<le> days_before_year 1"
      by (intro days_before_year_mono) simp
    with ymd2ord_year_bounds(2)[OF md] n assms(1) show False
      by (simp add: days_before_year_1)
  qed
  moreover have "y \<le> 9999"
  proof (rule ccontr)
    assume "\<not> y \<le> 9999"
    then have "days_before_year 10000 \<le> days_before_year y"
      by (intro days_before_year_mono) simp
    with ymd2ord_year_bounds(1)[OF md] n assms(2) show False
      by (simp add: days_before_year_10000 MAXORDINAL_def)
  qed
  ultimately have "fromordinal n = Inr \<lparr>year = y, month = m, day = dd\<rparr>"
    using md o by (simp add: fromordinal_def new_date_def MINYEAR_def MAXYEAR_def)
  moreover have "valid_date \<lparr>year = y, month = m, day = dd\<rparr>"
    using md \<open>1 \<le> y\<close> \<open>y \<le> 9999\<close> by (simp add: valid_date_def MINYEAR_def MAXYEAR_def)
  moreover have "toordinal \<lparr>year = y, month = m, day = dd\<rparr> = n"
    using n by (simp add: toordinal_def)
  ultimately show thesis by (rule that)
qed

lemma toordinal_inj:
  assumes "valid_date a" "valid_date b" "toordinal a = toordinal b"
  shows "a = b"
proof -
  have "year a = year b \<and> month a = month b \<and> day a = day b"
    using assms by (intro ymd2ord_inj) (simp_all add: valid_date_def toordinal_def)
  then show ?thesis by simp
qed

lemma fromordinal_toordinal:
  assumes "valid_date d"
  shows "fromordinal (toordinal d) = Inr d"
proof -
  from valid_date_ordinal[OF assms] have "0 < toordinal d" "toordinal d \<le> MAXORDINAL"
    by simp_all
  then obtain d' where d': "fromordinal (toordinal d) = Inr d'" "valid_date d'"
      "toordinal d' = toordinal d"
    by (rule fromordinal_valid)
  from toordinal_inj[OF d'(2) assms d'(3)] d'(1) show ?thesis by simp
qed

lemma weekday_range: "0 \<le> weekday d" "weekday d \<le> 6"
  by (simp_all add: weekday_def)

lemma date_add_valid:
  assumes "valid_date d" "0 < toordinal d + k" "toordinal d + k \<le> MAXORDINAL"
  obtains d' where "date_add d k = Inr d'" "valid_date d'" "toordinal d' = toordinal d + k"
proof -
  from fromordinal_valid[OF assms(2,3)] obtain d' where
    d': "fromordinal (toordinal d + k) = Inr d'" "valid_date d'" "toordinal d' = toordinal d + k"
    by blast
  from d'(1) assms have "date_add d k = Inr d'"
    by (simp add: date_add_def Let_def)
  from this d'(2,3) show thesis by (rule that)
qed

lemma date_add_zero:
  assumes "valid_date d"
  shows "date_add d 0 = Inr d"
  using valid_date_ordinal[OF assms] fromordinal_toordinal[OF assms]
  by (simp add: date_add_def Let_def)

lemma date_add_overflow:
  assumes "MAXORDINAL < toordinal d + k"
  shows "date_add d k = Inl OverflowError"
  using assms by (simp add: date_add_def Let_def)

section \<open>Facts about the weekday shift\<close>

lemma find_next_weekday_eq:
  assumes "0 \<le> W" "W \<le> 6"
  shows "find_next_weekday D W = date_add D ((W - weekday D) mod 7)"
proof -
  have r: "0 \<le> weekday D" "weekday D \<le> 6" by (rule weekday_range)+
  have m: "(W - weekday D) mod 7 = (if W - weekday D < 0 then W - weekday D + 7 else W - weekday D)"
  proof (cases "W - weekday D < 0")
    case True
    have "(W - weekday D) mod 7 = (W - weekday D + 7) mod 7" by simp
    also have "\<dots> = W - weekday D + 7"
      by (rule mod_pos_pos_trivial) (use True assms r in simp_all)
    finally show ?thesis using True by simp
  next
    case False
    have "(W - weekday D) mod 7 = W - weekday D"
      by (rule mod_pos_pos_trivial) (use False assms r in simp_all)
    then show ?thesis using False by simp
  qed
  have "\<bar>(W - weekday D) mod 7\<bar> \<le> 999999999"
    by (rule order_trans[of _ 7]) simp_all
  then show ?thesis
    unfolding find_next_weekday_def Let_def m[symmetric]
    by (simp add: timedelta_def)
qed

lemma weekday_shift:
  assumes "toordinal R = toordinal D + (W - weekday D) mod 7" "0 \<le> W" "W \<le> 6"
  shows "weekday R = W"
proof -
  have "weekday R = ((toordinal D + 6) + (W - weekday D) mod 7) mod 7"
    by (simp only: weekday_def assms(1) ac_simps)
  also have "\<dots> = ((toordinal D + 6) mod 7 + (W - weekday D)) mod 7"
    by (simp add: mod_simps)
  also have "\<dots> = W mod 7" by (simp add: weekday_def)
  finally show ?thesis using assms(2,3) by simp
qed

lemma find_next_weekday_ok:
  assumes "valid_date D" "0 \<le> W" "W \<le> 6"
    and "toordinal D + (W - weekday D) mod 7 \<le> MAXORDINAL"
  obtains R where "find_next_weekday D W = Inr R" "valid_date R" "weekday R = W"
    "toordinal R = toordinal D + (W - weekday D) mod 7"
proof -
  have "0 \<le> (W - weekday D) mod 7" by simp
  with valid_date_ordinal(1)[OF assms(1)] have "0 < toordinal D + (W - weekday D) mod 7"
    by linarith
  from date_add_valid[OF assms(1) this assms(4)] obtain R where
    R: "date_add D ((W - weekday D) mod 7) = Inr R" "valid_date R"
       "toordinal R = toordinal D + (W - weekday D) mod 7"
    by blast
  have "find_next_weekday D W = Inr R"
    using R(1) by (simp add: find_next_weekday_eq[OF assms(2,3)])
  from this R(2) weekday_shift[OF R(3) assms(2,3)] R(3) show thesis by (rule that)
qed

lemma find_next_weekday_same:
  assumes "valid_date D" "weekday D = W"
  shows "find_next_weekday D W = Inr D"
proof -
  have "0 \<le> W" "W \<le> 6" using weekday_range[of D] assms(2) by simp_all
  then show ?thesis
    using assms by (simp add: find_next_weekday_eq date_add_zero)
qed

lemma find_next_weekday_overflow:
  assumes "0 \<le> W" "W \<le> 6" "MAXORDINAL < toordinal D + (W - weekday D) mod 7"
  shows "find_next_weekday D W = Inl OverflowError"
  using assms by (simp add: find_next_weekday_eq date_add_overflow)

text \<open>The last day, 9999-12-31, is a Friday: after a Saturday or a Sunday there are days left.\<close>

lemma weekend_room:
  assumes "valid_date D" "5 \<le> weekday D"
  shows "toordinal D + 5 \<le> MAXORDINAL"
proof -
  define q where "q = (toordinal D + 6) div 7"
  have e: "toordinal D + 6 = 7 * q + weekday D"
    by (simp add: q_def weekday_def)
  have "toordinal D \<le> 3652059"
    using valid_date_ordinal(2)[OF assms(1)] by (simp add: MAXORDINAL_def)
  with e assms(2) have "7 * q \<le> 3652060" by linarith
  then have "q \<le> 521722" by linarith
  with e weekday_range(2)[of D] assms(2) show ?thesis
    by (simp add: MAXORDINAL_def)
qed

lemma adjust_birthday_weekend:
  assumes "valid_date D" "5 \<le> weekday D"
  obtains R where "adjust_birthday D = Inr R" "valid_date R" "toordinal R = toordinal D + 3"
    "weekday R = weekday D - 4"
proof -
  have room: "toordinal D + 3 \<le> MAXORDINAL"
    using weekend_room[OF assms] by simp
  from assms(2) weekday_range(2)[of D] consider "weekday D = 5" | "weekday D = 6" by linarith
  then show thesis
  proof cases
    case 1
    have m: "(1 - weekday D) mod 7 = 3" by (simp add: 1)
    from find_next_weekday_ok[of D 1] assms(1) room m obtain R where
      R: "find_next_weekday D 1 = Inr R" "valid_date R" "weekday R = 1"
         "toordinal R = toordinal D + 3"
      by auto
    have "adjust_birthday D = Inr R" using 1 R(1) by (simp add: adjust_birthday_def)
    from this R(2,4) show thesis using R(3) 1 by (intro that) simp_all
  next
    case 2
    have m: "(2 - weekday D) mod 7 = 3" by (simp add: 2)
    from find_next_weekday_ok[of D 2] assms(1) room m obtain R where
      R: "find_next_weekday D 2 = Inr R" "valid_date R" "weekday R = 2"
         "toordinal R = toordinal D + 3"
      by auto
    have "adjust_birthday D = Inr R" using 2 R(1) by (simp add: adjust_birthday_def)
    from this R(2,4) show thesis using R(3) 2 by (intro that) simp_all
  qed
qed

lemma adjust_birthday_workday:
  assumes "weekday D \<le> 4"
  shows "adjust_birthday D = Inr D"
  using assms by (simp add: adjust_birthday_def)

section \<open>Claims\<close>

subsection \<open>C10: changing a phone\<close>

text \<open>
  C10. For a record, a string \<open>old\<close> and a valid ten-digit phone \<open>new\<close>,
  \<open>change_phone(old, new)\<close> raises nothing, drops every stored phone equal to \<open>old\<close>
  and appends \<open>new\<close>. When \<open>old\<close> is not among the phones the call succeeds all the
  same: \<open>new\<close> is appended and the list is one longer.
\<close>

theorem change_phone_removes_then_appends:
  assumes "isdigit new" and "length new = 10"
  shows "change_phone r (PStr old) (PStr new)
           = (None, r\<lparr>phones := filter (\<lambda>p. p \<noteq> old) (phones r) @ [new]\<rparr>)
         \<and> (old \<notin> set (phones r) \<longrightarrow>
              change_phone r (PStr old) (PStr new) = (None, r\<lparr>phones := phones r @ [new]\<rparr>)
              \<and> length (phones (snd (change_phone r (PStr old) (PStr new))))
                   = length (phones r) + 1)"
proof -
  have ph: "Phone (PStr new) = Inr new"
    using assms by (simp add: Phone_def)
  have eq: "change_phone r (PStr old) (PStr new)
           = (None, r\<lparr>phones := filter (\<lambda>p. p \<noteq> old) (phones r) @ [new]\<rparr>)"
    by (simp add: change_phone_def add_phone_def remove_phone_def ph)
  have "filter (\<lambda>p. p \<noteq> old) (phones r) = phones r" if "old \<notin> set (phones r)"
    using that by (induction "phones r") (auto simp: filter_id_conv)
  with eq show ?thesis by simp
qed

text \<open>The theorem at a record with one phone and an \<open>old\<close> that is not stored.\<close>

theorem change_phone_removes_then_appends_witness:
  "isdigit ''9876543210'' \<and> length ''9876543210'' = 10
   \<and> ''1111111111'' \<notin> set (phones \<lparr>name = ''Alice'', phones = [''0123456789''], birthday = None\<rparr>)
   \<and> change_phone \<lparr>name = ''Alice'', phones = [''0123456789''], birthday = None\<rparr>
        (PStr ''1111111111'') (PStr ''9876543210'')
      = (None, \<lparr>name = ''Alice'', phones = [''0123456789'', ''9876543210''], birthday = None\<rparr>)"
proof -
  have h1: "isdigit ''9876543210''" by (simp add: isdigit_def isdigit_char_def)
  have h2: "length ''9876543210'' = 10" by simp
  show ?thesis
    using h1 h2 change_phone_removes_then_appends [OF h1 h2,
        of "\<lparr>name = ''Alice'', phones = [''0123456789''], birthday = None\<rparr>" "''1111111111''"]
    by simp
qed

subsection \<open>C1: the adjustment of a birthday on a weekend\<close>

text \<open>
  C1 says that \<open>adjust_birthday\<close> moves a Saturday by two days and a Sunday by one day,
  to the Monday, and that the raw birthday 14.09.2024 is stored as 16.09.2024. The code calls
  \<open>find_next_weekday\<close> with the targets 1 and 2, which are Tuesday and Wednesday:
  Saturday 14.09.2024 becomes Tuesday 17.09.2024, and that is what \<open>add_birthday\<close>
  stores.
\<close>

theorem adjust_birthday_saturday_gives_tuesday:
  "weekday \<lparr>year = 2024, month = 9, day = 14\<rparr> = 5
   \<and> adjust_birthday \<lparr>year = 2024, month = 9, day = 14\<rparr>
        = Inr \<lparr>year = 2024, month = 9, day = 17\<rparr>
   \<and> weekday \<lparr>year = 2024, month = 9, day = 17\<rparr> = 1
   \<and> add_birthday \<lparr>name = ''Alice'', phones = [], birthday = None\<rparr> ''14.09.2024''
        = (None, \<lparr>name = ''Alice'', phones = [], birthday = Some ''17.09.2024''\<rparr>)"
  by code_simp

subsection \<open>C4: the next day with a given weekday\<close>

text \<open>
  C4, amended. For a date \<open>D\<close> and a weekday \<open>W\<close> in \<open>0..6\<close> such that the day
  \<open>(W - D.weekday()) mod 7\<close> days after \<open>D\<close> is not after \<open>date.max\<close>,
  \<open>find_next_weekday(D, W)\<close> returns a date with weekday \<open>W\<close> that lies 0 to 6 days
  after \<open>D\<close>, and \<open>D\<close> itself when \<open>D\<close> already has weekday \<open>W\<close>.
\<close>

theorem find_next_weekday_within_week:
  assumes "valid_date D" and "0 \<le> W" and "W \<le> 6"
    and "toordinal D + (W - weekday D) mod 7 \<le> MAXORDINAL"
  shows "\<exists>R. find_next_weekday D W = Inr R \<and> valid_date R \<and> weekday R = W
           \<and> 0 \<le> toordinal R - toordinal D \<and> toordinal R - toordinal D \<le> 6
           \<and> (weekday D = W \<longrightarrow> R = D)"
proof -
  from find_next_weekday_ok[OF assms] obtain R where
    R: "find_next_weekday D W = Inr R" "valid_date R" "weekday R = W"
       "toordinal R = toordinal D + (W - weekday D) mod 7"
    by blast
  have b: "0 \<le> (W - weekday D) mod 7" "(W - weekday D) mod 7 \<le> 6"
    by simp_all
  have "R = D" if "weekday D = W"
    using find_next_weekday_same[OF assms(1) that] R(1) by simp
  with R b show ?thesis by simp
qed

text \<open>The theorem at Saturday 14.09.2024 and Monday: the result is 16.09.2024.\<close>

theorem find_next_weekday_within_week_witness:
  "valid_date \<lparr>year = 2024, month = 9, day = 14\<rparr> \<and> (0::int) \<le> 0 \<and> (0::int) \<le> 6
   \<and> toordinal \<lparr>year = 2024, month = 9, day = 14\<rparr>
        + (0 - weekday \<lparr>year = 2024, month = 9, day = 14\<rparr>) mod 7 \<le> MAXORDINAL
   \<and> find_next_weekday \<lparr>year = 2024, month = 9, day = 14\<rparr> 0
        = Inr \<lparr>year = 2024, month = 9, day = 16\<rparr>
   \<and> weekday \<lparr>year = 2024, month = 9, day = 16\<rparr> = 0
   \<and> toordinal \<lparr>year = 2024, month = 9, day = 16\<rparr>
        - toordinal \<lparr>year = 2024, month = 9, day = 14\<rparr> \<le> 6"
proof -
  let ?D = "\<lparr>year = 2024, month = 9, day = 14\<rparr>"
  have h1: "valid_date ?D" by code_simp
  have h2: "(0::int) \<le> 0" by simp
  have h3: "(0::int) \<le> 6" by simp
  have h4: "toordinal ?D + (0 - weekday ?D) mod 7 \<le> MAXORDINAL" by code_simp
  have e: "find_next_weekday ?D 0 = Inr \<lparr>year = 2024, month = 9, day = 16\<rparr>" by code_simp
  from find_next_weekday_within_week [OF h1 h2 h3 h4] e
  have "weekday \<lparr>year = 2024, month = 9, day = 16\<rparr> = 0
        \<and> toordinal \<lparr>year = 2024, month = 9, day = 16\<rparr> - toordinal ?D \<le> 6"
    by auto
  with h1 h4 e show ?thesis by simp
qed

text \<open>
  C4 as stated, for every date, fails at the end of the calendar: from Friday 9999-12-31 the
  next Monday is not a date, and the addition raises OverflowError.
\<close>

theorem find_next_weekday_last_day_overflows:
  "valid_date \<lparr>year = 9999, month = 12, day = 31\<rparr>
   \<and> find_next_weekday \<lparr>year = 9999, month = 12, day = 31\<rparr> 0 = Inl OverflowError"
  by code_simp

subsection \<open>C5: no adjusted birthday on a weekend\<close>

text \<open>
  C5. For every date \<open>D\<close>, \<open>adjust_birthday(D)\<close> returns a date that is neither a
  Saturday nor a Sunday; it returns \<open>D\<close> when \<open>D\<close> is a Monday to Friday; and adjusting
  the result again gives the same result.
\<close>

theorem adjust_birthday_never_weekend:
  assumes "valid_date D"
  shows "\<exists>R. adjust_birthday D = Inr R \<and> valid_date R \<and> weekday R \<noteq> 5 \<and> weekday R \<noteq> 6
           \<and> (weekday D \<le> 4 \<longrightarrow> R = D)
           \<and> adjust_birthday R = adjust_birthday D"
proof (cases "weekday D \<le> 4")
  case True
  then have "adjust_birthday D = Inr D" by (rule adjust_birthday_workday)
  with True assms show ?thesis by simp
next
  case False
  then have w: "5 \<le> weekday D" by simp
  from adjust_birthday_weekend[OF assms w] obtain R where
    R: "adjust_birthday D = Inr R" "valid_date R" "weekday R = weekday D - 4"
    by blast
  from R(3) w weekday_range(2)[of D] have wr: "weekday R \<le> 4" "weekday R \<noteq> 5" "weekday R \<noteq> 6"
    by simp_all
  have "adjust_birthday R = Inr R" using wr(1) by (rule adjust_birthday_workday)
  with R wr False show ?thesis by simp
qed

text \<open>The theorem at Sunday 15.09.2024.\<close>

theorem adjust_birthday_never_weekend_witness:
  "valid_date \<lparr>year = 2024, month = 9, day = 15\<rparr>
   \<and> weekday \<lparr>year = 2024, month = 9, day = 15\<rparr> = 6
   \<and> adjust_birthday \<lparr>year = 2024, month = 9, day = 15\<rparr>
        = Inr \<lparr>year = 2024, month = 9, day = 18\<rparr>
   \<and> weekday \<lparr>year = 2024, month = 9, day = 18\<rparr> \<noteq> 5
   \<and> weekday \<lparr>year = 2024, month = 9, day = 18\<rparr> \<noteq> 6
   \<and> adjust_birthday \<lparr>year = 2024, month = 9, day = 18\<rparr>
        = Inr \<lparr>year = 2024, month = 9, day = 18\<rparr>"
proof -
  let ?D = "\<lparr>year = 2024, month = 9, day = 15\<rparr>"
  have h: "valid_date ?D" by code_simp
  have w: "weekday ?D = 6" by code_simp
  have e: "adjust_birthday ?D = Inr \<lparr>year = 2024, month = 9, day = 18\<rparr>" by code_simp
  from adjust_birthday_never_weekend [OF h] e
  have "weekday \<lparr>year = 2024, month = 9, day = 18\<rparr> \<noteq> 5
        \<and> weekday \<lparr>year = 2024, month = 9, day = 18\<rparr> \<noteq> 6
        \<and> adjust_birthday \<lparr>year = 2024, month = 9, day = 18\<rparr>
             = Inr \<lparr>year = 2024, month = 9, day = 18\<rparr>"
    by auto
  with h w e show ?thesis by simp
qed

end
